theory Spec2Isabelle
  imports Complex_Main "HOL-Library.Multiset"
begin

section \<open>The module \<^verbatim>\<open>collatz.py\<close> as HOL functions\<close>

text \<open>
  Python's \<^verbatim>\<open>int\<close> is unbounded, so every number is an \<^typ>\<open>int\<close>.  Python's
  \<^verbatim>\<open>//\<close> and \<^verbatim>\<open>%\<close> round towards minus infinity, exactly as \<open>div\<close> and \<open>mod\<close>
  do on \<^typ>\<open>int\<close>.  None of the loops of the module has an iteration cap, and
  whether they end is the Collatz conjecture; each one is therefore a partial
  function into \<open>option\<close>, where \<open>None\<close> stands for a call that never returns.
\<close>

subsection \<open>\<^verbatim>\<open>isPo2\<close>\<close>

text \<open>The \<^verbatim>\<open>while n % 2 == 0: n = n // 2\<close> loop; it returns the value of \<^verbatim>\<open>n\<close> on exit.\<close>

partial_function (option) isPo2_loop :: "int \<Rightarrow> int option" where
  "isPo2_loop n = (if n mod 2 = 0 then isPo2_loop (n div 2) else Some n)"

definition isPo2 :: "int \<Rightarrow> bool option" where
  "isPo2 n = Option.bind (isPo2_loop n) (\<lambda>m. if m = 1 then Some True else Some False)"

subsection \<open>The generators \<^verbatim>\<open>colgen\<close> and \<^verbatim>\<open>redcolgen\<close>\<close>

text \<open>The body of the \<^verbatim>\<open>while\<close> loop of \<^verbatim>\<open>colgen\<close>: the new value of \<^verbatim>\<open>n\<close>.\<close>

definition colgen_step :: "int \<Rightarrow> int" where
  "colgen_step n = (if n mod 2 = 0 then n div 2 else n * 3 + 1)"

text \<open>The body of the \<^verbatim>\<open>while\<close> loop of \<^verbatim>\<open>redcolgen\<close>.\<close>

definition redcolgen_step :: "int \<Rightarrow> int" where
  "redcolgen_step n = (if n mod 2 = 0 then n div 2 else (n * 3 + 1) div 2)"

text \<open>
  A generator is modelled by the list of everything it yields until it is
  exhausted.  \<open>colgen_loop n\<close> is what the \<^verbatim>\<open>while n > 1\<close> loop yields when it is
  entered with the value \<open>n\<close>; \<open>colgen n\<close> puts the first \<^verbatim>\<open>yield n\<close> in front.
\<close>

partial_function (option) colgen_loop :: "int \<Rightarrow> int list option" where
  "colgen_loop n =
     (if n > 1
      then Option.bind (colgen_loop (colgen_step n)) (\<lambda>ys. Some (colgen_step n # ys))
      else Some [])"

definition colgen :: "int \<Rightarrow> int list option" where
  "colgen n = Option.bind (colgen_loop n) (\<lambda>ys. Some (n # ys))"

partial_function (option) redcolgen_loop :: "int \<Rightarrow> int list option" where
  "redcolgen_loop n =
     (if n > 1
      then Option.bind (redcolgen_loop (redcolgen_step n)) (\<lambda>ys. Some (redcolgen_step n # ys))
      else Some [])"

definition redcolgen :: "int \<Rightarrow> int list option" where
  "redcolgen n = Option.bind (redcolgen_loop n) (\<lambda>ys. Some (n # ys))"

subsection \<open>\<^verbatim>\<open>C\<close>, \<^verbatim>\<open>T\<close> and \<^verbatim>\<open>tst\<close>\<close>

definition C :: "int \<Rightarrow> int list option" where
  "C n = colgen n"

definition T :: "int \<Rightarrow> int list option" where
  "T n = redcolgen n"

definition tst :: "int \<Rightarrow> int option" where
  "tst n = Option.bind (colgen n) (\<lambda>ys. Some (int (length ys)))"

subsection \<open>\<^verbatim>\<open>st\<close>\<close>

text \<open>
  The \<^verbatim>\<open>while not (n == 1)\<close> loop of \<^verbatim>\<open>st\<close>, with its state \<^verbatim>\<open>n\<close>, \<^verbatim>\<open>k\<close> and the
  constant \<^verbatim>\<open>n_start\<close>; the result is the value of \<^verbatim>\<open>k\<close> on exit, by the loop test or
  by the \<^verbatim>\<open>break\<close> of the even branch.
\<close>

partial_function (option) st_loop :: "int \<Rightarrow> int \<Rightarrow> int \<Rightarrow> int option" where
  "st_loop n_start n k =
     (if \<not> (n = 1)
      then (if n mod 2 = 0
            then (if n div 2 < n_start
                  then Some (k + 1)
                  else st_loop n_start (n div 2) (k + 1))
            else st_loop n_start ((3 * n + 1) div 2) (k + 1 + 1))
      else Some k)"

definition st :: "int \<Rightarrow> int option" where
  "st n = (if n mod 2 = 0 then Some 1 else st_loop n n 0)"

subsection \<open>\<^verbatim>\<open>residue\<close> and \<^verbatim>\<open>completeness\<close>\<close>

datatype error = ZeroDivisionError

text \<open>
  Python's \<^verbatim>\<open>/\<close> on two \<^verbatim>\<open>int\<close>s raises \<^verbatim>\<open>ZeroDivisionError\<close> when the divisor is
  zero and otherwise returns the float nearest to the exact quotient.  The
  model keeps the exact quotient, a rational number; the rounding to a float
  is not modelled.
\<close>

definition truediv :: "int \<Rightarrow> int \<Rightarrow> error + rat" where
  "truediv a b = (if b = 0 then Inl ZeroDivisionError else Inr (of_int a / of_int b))"

text \<open>
  \<^verbatim>\<open>residue\<close> and \<^verbatim>\<open>completeness\<close> contain the same loop, line for line, over \<^verbatim>\<open>n\<close>,
  \<^verbatim>\<open>e\<close> and \<^verbatim>\<open>o\<close>; it returns the values of \<^verbatim>\<open>e\<close> and \<^verbatim>\<open>o\<close> on exit.
\<close>

partial_function (option) eo_loop :: "int \<Rightarrow> int \<Rightarrow> int \<Rightarrow> (int \<times> int) option" where
  "eo_loop n e o' =
     (if \<not> (n = 1)
      then (if n mod 2 = 0
            then eo_loop (n div 2) (e + 1) o'
            else eo_loop ((3 * n + 1) div 2) (e + 1) (o' + 1))
      else Some (e, o'))"

definition residue :: "int \<Rightarrow> (error + rat) option" where
  "residue n = Option.bind (eo_loop n 0 0)
     (\<lambda>(e, o'). Some (truediv (2 ^ nat e) (3 ^ nat o' * n)))"

definition completeness :: "int \<Rightarrow> (error + rat) option" where
  "completeness n = Option.bind (eo_loop n 0 0) (\<lambda>(e, o'). Some (truediv o' e))"

subsection \<open>\<^verbatim>\<open>CtoPo2\<close>\<close>

text \<open>The \<^verbatim>\<open>while not isPo2(n)\<close> loop, with its state \<^verbatim>\<open>n\<close> and \<^verbatim>\<open>seq_list\<close>.\<close>

partial_function (option) CtoPo2_loop :: "int \<Rightarrow> int list \<Rightarrow> int list option" where
  "CtoPo2_loop n seq_list =
     Option.bind (isPo2 n) (\<lambda>p.
       if \<not> p
       then (if n mod 2 = 0
             then CtoPo2_loop (n div 2) (seq_list @ [n div 2])
             else CtoPo2_loop (3 * n + 1) (seq_list @ [3 * n + 1]))
       else Some seq_list)"

definition CtoPo2 :: "int \<Rightarrow> int list option" where
  "CtoPo2 n = CtoPo2_loop n []"

subsection \<open>\<^verbatim>\<open>uptree\<close> and \<^verbatim>\<open>Tree.tree\<close>\<close>

definition uptree :: "int \<Rightarrow> int list" where
  "uptree n = [n * 2] @ (if n mod 6 = 4 then [(n - 1) div 3] else [])"

record Tree =
  root :: int
  steps :: int

text \<open>The inner \<^verbatim>\<open>for numbers in branches[-1]\<close> loop, started with \<^verbatim>\<open>nextbranch = []\<close>.\<close>

definition nextbranch_of :: "int list \<Rightarrow> int list" where
  "nextbranch_of prev = fold (\<lambda>numbers nextbranch. nextbranch @ uptree numbers) prev []"

text \<open>One round of the outer loop on the pair (\<^verbatim>\<open>tree\<close>, \<^verbatim>\<open>branches\<close>).\<close>

definition tree_round :: "int \<Rightarrow> int list \<times> int list list \<Rightarrow> int list \<times> int list list" where
  "tree_round step s =
     (case s of (tree, branches) \<Rightarrow>
        (tree @ nextbranch_of (last branches), branches @ [nextbranch_of (last branches)]))"

text \<open>
  \<^verbatim>\<open>Tree.tree\<close>: the outer loop runs over \<^verbatim>\<open>range(1, steps + 1)\<close>, which is empty when
  \<^verbatim>\<open>steps\<close> is below 1.
\<close>

definition tree :: "Tree \<Rightarrow> int list \<times> int list list" where
  "tree self =
     (case fold tree_round [1 .. steps self] ([root self], [[root self]]) of
        (tree, branches) \<Rightarrow> (sort tree, branches))"

subsection \<open>Notions used in the statements and proofs\<close>

text \<open>
  The invariant of the outer loop of \<^verbatim>\<open>Tree.tree\<close> after \<open>d\<close> rounds from the root
  \<open>r\<close>, on the pair (\<^verbatim>\<open>tree\<close>, \<^verbatim>\<open>branches\<close>).
\<close>

definition tree_inv :: "int \<Rightarrow> nat \<Rightarrow> int list \<times> int list list \<Rightarrow> bool" where
  "tree_inv r d s = (case s of (flat, gens) \<Rightarrow>
     length gens = Suc d \<and> gens ! 0 = [r] \<and> flat = concat gens \<and>
     (\<forall>g. 1 \<le> g \<and> g \<le> d \<longrightarrow> gens ! g = concat (map uptree (gens ! (g - 1)))))"

text \<open>
  What the counter \<^verbatim>\<open>k\<close> of \<^verbatim>\<open>st\<close> gains over \<open>j\<close> rounds of its loop entered with
  the value \<open>n\<close>: two for a round that finds an odd value, one for a round that
  finds an even value.
\<close>

fun st_cost :: "nat \<Rightarrow> int \<Rightarrow> int" where
  "st_cost 0 n = 0"
| "st_cost (Suc j) n = (if n mod 2 = 0 then 1 else 2) + st_cost j (redcolgen_step n)"

section \<open>Properties\<close>

subsection \<open>The steps keep a positive value positive\<close>

lemma colgen_step_pos: "1 \<le> n \<Longrightarrow> 1 \<le> colgen_step n"
  unfolding colgen_step_def by (simp; presburger)

lemma redcolgen_step_pos: "1 \<le> n \<Longrightarrow> 1 \<le> redcolgen_step n"
  unfolding redcolgen_step_def by (simp; presburger)

lemma colgen_loop_returns:
  "1 \<le> n \<Longrightarrow> (colgen_step ^^ k) n = 1 \<Longrightarrow> \<exists>ys. colgen_loop n = Some ys"
proof (induction k arbitrary: n)
  case 0
  then show ?case by (simp add: colgen_loop.simps)
next
  case (Suc k)
  show ?case
  proof (cases "n = 1")
    case True
    then show ?thesis by (simp add: colgen_loop.simps)
  next
    case False
    from Suc.prems have "(colgen_step ^^ k) (colgen_step n) = 1"
      by (simp add: funpow_swap1)
    with Suc.IH [OF colgen_step_pos [OF Suc.prems(1)]]
    obtain ys where "colgen_loop (colgen_step n) = Some ys" by blast
    then show ?thesis by (subst colgen_loop.simps) simp
  qed
qed

lemma colgen_loop_shape:
  assumes "colgen_loop n = Some ys"
  shows "1 \<le> n \<longrightarrow> last (n # ys) = 1 \<and> (\<forall>(a, b) \<in> set (zip (n # ys) ys). b = colgen_step a)
        \<and> 1 \<notin> set (butlast (n # ys))"
proof (rule colgen_loop.raw_induct [where P = "\<lambda>n ys. 1 \<le> n \<longrightarrow> last (n # ys) = 1
        \<and> (\<forall>(a, b) \<in> set (zip (n # ys) ys). b = colgen_step a) \<and> 1 \<notin> set (butlast (n # ys))", OF _ assms])
  fix loop :: "int \<Rightarrow> int list option" and n ys
  assume IH: "\<And>n ys. loop n = Some ys \<Longrightarrow> 1 \<le> n \<longrightarrow> last (n # ys) = 1
        \<and> (\<forall>(a, b) \<in> set (zip (n # ys) ys). b = colgen_step a) \<and> 1 \<notin> set (butlast (n # ys))"
    and eq: "(if 1 < n then Option.bind (loop (colgen_step n)) (\<lambda>ys. Some (colgen_step n # ys))
             else Some []) = Some ys"
  show "1 \<le> n \<longrightarrow> last (n # ys) = 1
        \<and> (\<forall>(a, b) \<in> set (zip (n # ys) ys). b = colgen_step a) \<and> 1 \<notin> set (butlast (n # ys))"
  proof (cases "1 < n")
    case False
    with eq have "ys = []" by simp
    with False show ?thesis by simp
  next
    case True
    with eq obtain zs where zs: "loop (colgen_step n) = Some zs" and ys: "ys = colgen_step n # zs"
      by (auto simp: bind_eq_Some_conv)
    from True have "1 \<le> colgen_step n" by (simp add: colgen_step_pos)
    with IH [OF zs] have "last (colgen_step n # zs) = 1"
      "\<forall>(a, b) \<in> set (zip (colgen_step n # zs) zs). b = colgen_step a"
      "1 \<notin> set (butlast (colgen_step n # zs))" by blast+
    with True ys show ?thesis by simp
  qed
qed

subsection \<open>\<^verbatim>\<open>isPo2\<close> decides the powers of two\<close>

lemma isPo2_loop_zero:
  assumes "isPo2_loop n = Some m"
  shows "n \<noteq> 0"
proof (rule isPo2_loop.raw_induct [where P = "\<lambda>x y. x \<noteq> 0", OF _ assms])
  fix f :: "int \<Rightarrow> int option" and x y
  assume IH: "\<And>x y. f x = Some y \<Longrightarrow> x \<noteq> 0"
    and eq: "(if x mod 2 = 0 then f (x div 2) else Some x) = Some y"
  show "x \<noteq> 0"
  proof
    assume "x = 0"
    with eq have "f 0 = Some y" by simp
    with IH show False by blast
  qed
qed

lemma isPo2_zero: "isPo2 0 = None"
proof (cases "isPo2_loop 0")
  case None then show ?thesis by (simp add: isPo2_def)
next
  case (Some m) then show ?thesis using isPo2_loop_zero by blast
qed

lemma isPo2_loop_pow: "isPo2_loop (2 ^ k) = Some 1"
proof (induction k)
  case 0 show ?case by (subst isPo2_loop.simps) simp
next
  case (Suc k) then show ?case by (subst isPo2_loop.simps) simp
qed

lemma isPo2_loop_factor:
  "n \<noteq> 0 \<Longrightarrow> \<exists>m k. isPo2_loop n = Some m \<and> n = m * 2 ^ k"
proof (induction "nat \<bar>n\<bar>" arbitrary: n rule: less_induct)
  case less
  show ?case
  proof (cases "n mod 2 = 0")
    case False
    then have "isPo2_loop n = Some n" by (subst isPo2_loop.simps) simp
    then have "isPo2_loop n = Some n \<and> n = n * 2 ^ 0" by simp
    then show ?thesis by blast
  next
    case True
    with less.prems have "n div 2 \<noteq> 0" "\<bar>n div 2\<bar> < \<bar>n\<bar>" by presburger+
    then have h: "n div 2 \<noteq> 0" "nat \<bar>n div 2\<bar> < nat \<bar>n\<bar>" by simp_all
    from less.hyps [OF h(2) h(1)] obtain m k where
      mk: "isPo2_loop (n div 2) = Some m" "n div 2 = m * 2 ^ k" by blast
    from True mk(1) have a: "isPo2_loop n = Some m" by (subst isPo2_loop.simps) simp
    from True mk(2) have "n = m * 2 ^ Suc k" by auto
    with a show ?thesis by blast
  qed
qed

lemma isPo2_nonzero: "n \<noteq> 0 \<Longrightarrow> isPo2 n = Some (\<exists>k. n = 2 ^ k)"
proof -
  assume n: "n \<noteq> 0"
  from isPo2_loop_factor [OF n] obtain m k where
    mk: "isPo2_loop n = Some m" "n = m * 2 ^ k" by blast
  have "(m = 1) = (\<exists>k. n = 2 ^ k)"
  proof
    assume "m = 1" with mk(2) show "\<exists>k. n = 2 ^ k" by auto
  next
    assume "\<exists>k. n = 2 ^ k"
    then obtain j where "n = 2 ^ j" ..
    with isPo2_loop_pow [of j] mk(1) show "m = 1" by simp
  qed
  with mk(1) show "isPo2 n = Some (\<exists>k. n = 2 ^ k)" by (simp add: isPo2_def)
qed

lemma isPo2_pos: "1 \<le> n \<Longrightarrow> isPo2 n = Some (\<exists>k. n = 2 ^ k)"
  by (rule isPo2_nonzero) simp

text \<open>
  Claim C10, amended.  For every \<open>n \<ge> 1\<close>, \<^verbatim>\<open>isPo2(n)\<close> returns, and it returns \<^verbatim>\<open>True\<close>
  exactly when \<open>n\<close> is \<open>2 ^ k\<close> for some \<open>k \<ge> 0\<close>.  The halving loop fails to end for
  \<open>n = 0\<close> and for no other input: for a negative \<open>n\<close> the call returns as well,
  with \<^verbatim>\<open>False\<close>.
\<close>

theorem isPo2_decides_powers_of_two:
  "(1 \<le> n \<longrightarrow> isPo2 n = Some (\<exists>k. n = 2 ^ k))
   \<and> (isPo2 n = None \<longleftrightarrow> n = 0)
   \<and> (n < 0 \<longrightarrow> isPo2 n = Some False)"
proof (intro conjI impI)
  show "isPo2 n = Some (\<exists>k. n = 2 ^ k)" if "1 \<le> n" using that by (rule isPo2_pos)
  show "isPo2 n = None \<longleftrightarrow> n = 0"
    using isPo2_zero isPo2_nonzero [of n] by (cases "n = 0") simp_all
  show "isPo2 n = Some False" if "n < 0"
  proof -
    have "(0::int) < 2 ^ k" for k by simp
    with that have "\<not> (\<exists>k. n = 2 ^ k)" by (metis less_asym)
    with that isPo2_nonzero [of n] show ?thesis by simp
  qed
qed

theorem isPo2_decides_powers_of_two_witness:
  "isPo2 16 = Some True \<and> (\<exists>k. (16::int) = 2 ^ k) \<and> isPo2 0 = None \<and> isPo2 (- 4) = Some False"
proof -
  have "isPo2 16 = Some True" by (simp add: isPo2_def isPo2_loop.simps)
  with isPo2_decides_powers_of_two [of 16] isPo2_decides_powers_of_two [of 0]
    isPo2_decides_powers_of_two [of "- 4"] show ?thesis by simp
qed

text \<open>
  The claim as it was stated lets the loop end only for \<open>n \<ge> 1\<close>; at \<open>n = -4\<close> the
  loop goes through \<open>-2\<close> and ends at \<open>-1\<close>, which is odd and not 1.
\<close>

theorem isPo2_negative_counterexample:
  "isPo2 (- 4) = Some False"
  by (simp add: isPo2_def isPo2_loop.simps)

subsection \<open>The predecessors \<^verbatim>\<open>uptree\<close>\<close>

text \<open>
  Claim C3.  For every \<open>n \<ge> 1\<close>, \<^verbatim>\<open>uptree(n)\<close> is \<open>[2n]\<close> when \<open>n mod 6 \<noteq> 4\<close> and
  \<open>[2n, (n - 1) / 3]\<close> when \<open>n mod 6 = 4\<close>, where the division is exact and its result
  positive.  So \<open>2n\<close> is always the first element, the list has two elements
  exactly when \<open>n mod 6 = 4\<close>, and it has one or two elements.
\<close>

theorem uptree_spec:
  "1 \<le> n \<Longrightarrow>
     (n mod 6 \<noteq> 4 \<longrightarrow> uptree n = [2 * n]) \<and>
     (n mod 6 = 4 \<longrightarrow> uptree n = [2 * n, (n - 1) div 3]
        \<and> 3 * ((n - 1) div 3) = n - 1 \<and> 0 < (n - 1) div 3) \<and>
     hd (uptree n) = 2 * n \<and>
     (length (uptree n) = 2 \<longleftrightarrow> n mod 6 = 4) \<and>
     uptree n \<noteq> [] \<and> length (uptree n) \<le> 2"
proof -
  assume n: "1 \<le> n"
  have a: "n mod 6 = 4 \<Longrightarrow> 3 * ((n - 1) div 3) = n - 1" by presburger
  have b: "n mod 6 = 4 \<Longrightarrow> 0 < (n - 1) div 3" using n by presburger
  show ?thesis using a b by (simp add: uptree_def)
qed

theorem uptree_spec_witness:
  "uptree 4 = [8, 1] \<and> length (uptree 4) = 2 \<and> uptree 5 = [10] \<and> length (uptree 5) \<noteq> 2"
  using uptree_spec [of 4] uptree_spec [of 5] by simp

text \<open>
  Claim C9.  For every \<open>n \<ge> 1\<close>, one step of \<^verbatim>\<open>colgen\<close> taken from any element of
  \<^verbatim>\<open>uptree(n)\<close> gives \<open>n\<close> again: the first element \<open>2n\<close> is even and halves to \<open>n\<close>,
  and the second element, when there is one, is odd and goes to three times
  itself plus one, which is \<open>n\<close>.
\<close>

theorem uptree_colgen_step:
  "1 \<le> n \<Longrightarrow>
     (\<forall>p \<in> set (uptree n). colgen_step p = n) \<and>
     (uptree n ! 0) mod 2 = 0 \<and> (uptree n ! 0) div 2 = n \<and>
     (length (uptree n) = 2 \<longrightarrow> (uptree n ! 1) mod 2 = 1 \<and> (uptree n ! 1) * 3 + 1 = n)"
proof -
  assume n: "1 \<le> n"
  have a: "n mod 6 = 4 \<Longrightarrow> ((n - 1) div 3) mod 2 = 1" by presburger
  have b: "n mod 6 = 4 \<Longrightarrow> (n - 1) div 3 * 3 + 1 = n" by presburger
  show ?thesis using a b by (simp add: uptree_def colgen_step_def)
qed

theorem uptree_colgen_step_witness:
  "colgen_step 8 = 4 \<and> colgen_step 1 = 4 \<and> uptree 4 = [8, 1]"
  using uptree_colgen_step [of 4] by (simp add: uptree_def)

subsection \<open>The trajectories\<close>

lemma redcolgen_loop_returns:
  "1 \<le> n \<Longrightarrow> (colgen_step ^^ k) n = 1 \<Longrightarrow> \<exists>ys. redcolgen_loop n = Some ys"
proof (induction k arbitrary: n rule: less_induct)
  case (less k)
  show ?case
  proof (cases "n = 1")
    case True
    then show ?thesis by (simp add: redcolgen_loop.simps)
  next
    case False
    with less.prems obtain k' where k: "k = Suc k'" by (cases k) auto
    with less.prems have k': "(colgen_step ^^ k') (colgen_step n) = 1"
      by (simp add: funpow_swap1)
    have "\<exists>j<k. (colgen_step ^^ j) (redcolgen_step n) = 1"
    proof (cases "n mod 2 = 0")
      case True
      then have "redcolgen_step n = colgen_step n"
        by (simp add: redcolgen_step_def colgen_step_def)
      with k' have "(colgen_step ^^ k') (redcolgen_step n) = 1" by simp
      moreover from k have "k' < k" by simp
      ultimately show ?thesis by blast
    next
      case odd: False
      with less.prems(1) have "colgen_step n \<noteq> 1" by (auto simp: colgen_step_def)
      with k' obtain k'' where k'': "k' = Suc k''" by (cases k') auto
      from odd have "colgen_step (colgen_step n) = redcolgen_step n"
        unfolding redcolgen_step_def colgen_step_def by (simp; presburger)
      with k' k'' have "(colgen_step ^^ k'') (redcolgen_step n) = 1"
        by (simp add: funpow_swap1)
      moreover from k k'' have "k'' < k" by simp
      ultimately show ?thesis by blast
    qed
    then obtain j where j: "j < k" "(colgen_step ^^ j) (redcolgen_step n) = 1" by blast
    from less.IH [OF j(1) redcolgen_step_pos [OF less.prems(1)] j(2)]
    obtain ys where "redcolgen_loop (redcolgen_step n) = Some ys" by blast
    with False less.prems(1) show ?thesis by (subst redcolgen_loop.simps) simp
  qed
qed

lemma redcolgen_loop_shape:
  assumes "redcolgen_loop n = Some ys"
  shows "1 \<le> n \<longrightarrow> last (n # ys) = 1 \<and> (\<forall>(a, b) \<in> set (zip (n # ys) ys). b = redcolgen_step a)
        \<and> 1 \<notin> set (butlast (n # ys))"
proof (rule redcolgen_loop.raw_induct [where P = "\<lambda>n ys. 1 \<le> n \<longrightarrow> last (n # ys) = 1
        \<and> (\<forall>(a, b) \<in> set (zip (n # ys) ys). b = redcolgen_step a) \<and> 1 \<notin> set (butlast (n # ys))", OF _ assms])
  fix loop :: "int \<Rightarrow> int list option" and n ys
  assume IH: "\<And>n ys. loop n = Some ys \<Longrightarrow> 1 \<le> n \<longrightarrow> last (n # ys) = 1
        \<and> (\<forall>(a, b) \<in> set (zip (n # ys) ys). b = redcolgen_step a) \<and> 1 \<notin> set (butlast (n # ys))"
    and eq: "(if 1 < n then Option.bind (loop (redcolgen_step n)) (\<lambda>ys. Some (redcolgen_step n # ys))
             else Some []) = Some ys"
  show "1 \<le> n \<longrightarrow> last (n # ys) = 1
        \<and> (\<forall>(a, b) \<in> set (zip (n # ys) ys). b = redcolgen_step a) \<and> 1 \<notin> set (butlast (n # ys))"
  proof (cases "1 < n")
    case False
    with eq have "ys = []" by simp
    with False show ?thesis by simp
  next
    case True
    with eq obtain zs where zs: "loop (redcolgen_step n) = Some zs" and ys: "ys = redcolgen_step n # zs"
      by (auto simp: bind_eq_Some_conv)
    from True have "1 \<le> redcolgen_step n" by (simp add: redcolgen_step_pos)
    with IH [OF zs] have "last (redcolgen_step n # zs) = 1"
      "\<forall>(a, b) \<in> set (zip (redcolgen_step n # zs) zs). b = redcolgen_step a"
      "1 \<notin> set (butlast (redcolgen_step n # zs))" by blast+
    with True ys show ?thesis by simp
  qed
qed

text \<open>
  Claim C1.  Let \<open>n \<ge> 1\<close> be a number whose trajectory reaches 1.  Then \<^verbatim>\<open>C(n)\<close> and
  \<^verbatim>\<open>T(n)\<close>, the lists of what \<^verbatim>\<open>colgen(n)\<close> and \<^verbatim>\<open>redcolgen(n)\<close> yield, both exist;
  each starts with \<open>n\<close>, ends with 1 and has no 1 before its last position; every
  element of the standard list is followed by its half when it is even and by
  three times itself plus one when it is odd, and every element of the reduced
  list by its half when it is even and by half of three times itself plus one
  when it is odd.
\<close>

theorem trajectory_shape:
  assumes "1 \<le> n" and "(colgen_step ^^ k) n = 1"
  shows "\<exists>xs ys. C n = Some xs \<and> T n = Some ys
     \<and> hd xs = n \<and> last xs = 1 \<and> 1 \<notin> set (butlast xs)
     \<and> (\<forall>(a, b) \<in> set (zip xs (tl xs)). b = (if a mod 2 = 0 then a div 2 else 3 * a + 1))
     \<and> hd ys = n \<and> last ys = 1 \<and> 1 \<notin> set (butlast ys)
     \<and> (\<forall>(a, b) \<in> set (zip ys (tl ys)). b = (if a mod 2 = 0 then a div 2 else (3 * a + 1) div 2))"
proof -
  from colgen_loop_returns [OF assms] obtain xs where xs: "colgen_loop n = Some xs" by blast
  from redcolgen_loop_returns [OF assms] obtain ys where ys: "redcolgen_loop n = Some ys" by blast
  have c: "C n = Some (n # xs)" using xs by (simp add: C_def colgen_def)
  have t: "T n = Some (n # ys)" using ys by (simp add: T_def redcolgen_def)
  have s1: "colgen_step = (\<lambda>a. if a mod 2 = 0 then a div 2 else 3 * a + 1)"
    by (rule ext) (simp add: colgen_step_def)
  have s2: "redcolgen_step = (\<lambda>a. if a mod 2 = 0 then a div 2 else (3 * a + 1) div 2)"
    by (rule ext) (simp add: redcolgen_step_def mult.commute)
  from colgen_loop_shape [OF xs] assms(1) have
    x: "last (n # xs) = 1" "1 \<notin> set (butlast (n # xs))"
       "\<forall>(a, b) \<in> set (zip (n # xs) xs). b = (if a mod 2 = 0 then a div 2 else 3 * a + 1)"
    unfolding s1 by blast+
  from redcolgen_loop_shape [OF ys] assms(1) have
    y: "last (n # ys) = 1" "1 \<notin> set (butlast (n # ys))"
       "\<forall>(a, b) \<in> set (zip (n # ys) ys). b = (if a mod 2 = 0 then a div 2 else (3 * a + 1) div 2)"
    unfolding s2 by blast+
  have "C n = Some (n # xs) \<and> T n = Some (n # ys)
     \<and> hd (n # xs) = n \<and> last (n # xs) = 1 \<and> 1 \<notin> set (butlast (n # xs))
     \<and> (\<forall>(a, b) \<in> set (zip (n # xs) (tl (n # xs))). b = (if a mod 2 = 0 then a div 2 else 3 * a + 1))
     \<and> hd (n # ys) = n \<and> last (n # ys) = 1 \<and> 1 \<notin> set (butlast (n # ys))
     \<and> (\<forall>(a, b) \<in> set (zip (n # ys) (tl (n # ys))). b = (if a mod 2 = 0 then a div 2 else (3 * a + 1) div 2))"
    using c t x y by simp
  then show ?thesis by blast
qed

theorem trajectory_shape_witness:
  "C 10 = Some [10, 5, 16, 8, 4, 2, 1] \<and> T 10 = Some [10, 5, 8, 4, 2, 1] \<and>
   (\<exists>xs ys. C 10 = Some xs \<and> T 10 = Some ys \<and> last xs = 1 \<and> last ys = 1)"
proof -
  have a: "(colgen_step ^^ 6) 10 = 1" by (simp add: eval_nat_numeral colgen_step_def)
  have c: "C 10 = Some [10, 5, 16, 8, 4, 2, 1]"
    by (simp add: C_def colgen_def colgen_loop.simps colgen_step_def)
  have t: "T 10 = Some [10, 5, 8, 4, 2, 1]"
    by (simp add: T_def redcolgen_def redcolgen_loop.simps redcolgen_step_def)
  from trajectory_shape [of 10 6, OF _ a] c t show ?thesis by simp
qed

text \<open>
  Claim C7.  \<^verbatim>\<open>tst(n)\<close> is the length of \<^verbatim>\<open>C(n)\<close>: one returns exactly when the other
  does, and then with that value.  \<^verbatim>\<open>tst(1)\<close> is 1.  For every \<open>n \<ge> 1\<close> whose
  trajectory reaches 1 both return.
\<close>

theorem tst_is_length:
  "tst n = map_option (\<lambda>xs. int (length xs)) (C n) \<and> tst 1 = Some 1 \<and>
   (1 \<le> n \<and> (colgen_step ^^ k) n = 1 \<longrightarrow> (\<exists>xs. C n = Some xs \<and> tst n = Some (int (length xs))))"
proof (intro conjI impI)
  show g: "tst n = map_option (\<lambda>xs. int (length xs)) (C n)" for n
    by (cases "colgen n") (simp_all add: tst_def C_def)
  show "tst 1 = Some 1" by (simp add: tst_def colgen_def colgen_loop.simps)
  assume "1 \<le> n \<and> (colgen_step ^^ k) n = 1"
  then obtain xs where "colgen_loop n = Some xs" using colgen_loop_returns by blast
  then have "C n = Some (n # xs)" by (simp add: C_def colgen_def)
  with g [of n] show "\<exists>xs. C n = Some xs \<and> tst n = Some (int (length xs))" by simp
qed

theorem tst_is_length_witness:
  "C 10 = Some [10, 5, 16, 8, 4, 2, 1] \<and> tst 10 = Some 7"
proof -
  have a: "(colgen_step ^^ 6) 10 = 1" by (simp add: eval_nat_numeral colgen_step_def)
  have c: "C 10 = Some [10, 5, 16, 8, 4, 2, 1]"
    by (simp add: C_def colgen_def colgen_loop.simps colgen_step_def)
  from tst_is_length [of 10 6] a c show ?thesis by simp
qed

subsection \<open>\<^verbatim>\<open>Tree.tree\<close>\<close>

lemma nextbranch_of_fold:
  "fold (\<lambda>numbers nextbranch. nextbranch @ uptree numbers) prev acc = acc @ concat (map uptree prev)"
  by (induction prev arbitrary: acc) simp_all

lemma nextbranch_of_concat: "nextbranch_of prev = concat (map uptree prev)"
  by (simp add: nextbranch_of_def nextbranch_of_fold)

lemma tree_round_inv:
  assumes "tree_inv r d s"
  shows "tree_inv r (Suc d) (tree_round step s)"
proof -
  obtain flat gens where s: "s = (flat, gens)" by (cases s)
  with assms have len: "length gens = Suc d" and g0: "gens ! 0 = [r]" and fl: "flat = concat gens"
    and st: "\<And>g. 1 \<le> g \<Longrightarrow> g \<le> d \<Longrightarrow> gens ! g = concat (map uptree (gens ! (g - 1)))"
    by (auto simp: tree_inv_def)
  from len have ne: "gens \<noteq> []" by auto
  let ?nb = "concat (map uptree (last gens))"
  have tr: "tree_round step s = (flat @ ?nb, gens @ [?nb])"
    by (simp add: s tree_round_def nextbranch_of_concat)
  have l: "last gens = gens ! d" using len ne by (simp add: last_conv_nth)
  have "(gens @ [?nb]) ! g = concat (map uptree ((gens @ [?nb]) ! (g - 1)))"
    if "1 \<le> g" "g \<le> Suc d" for g
  proof (cases "g = Suc d")
    case True
    with len l show ?thesis by (simp add: nth_append)
  next
    case False
    with that have "g \<le> d" by simp
    moreover from this have "g - 1 < Suc d" "g < Suc d" by simp_all
    ultimately show ?thesis using that(1) len st [of g] by (simp add: nth_append)
  qed
  with len g0 fl show ?thesis unfolding tr tree_inv_def by (simp add: nth_append)
qed

lemma fold_tree_round_inv:
  "tree_inv r d s \<Longrightarrow> tree_inv r (d + length ss) (fold tree_round ss s)"
proof (induction ss arbitrary: d s)
  case Nil then show ?case by simp
next
  case (Cons a ss)
  from Cons.IH [OF tree_round_inv [OF Cons.prems, of a]] show ?case by simp
qed

text \<open>
  Claim C4.  For every root \<open>r\<close> and depth \<open>d \<ge> 0\<close>, \<^verbatim>\<open>Tree(r, d).tree()\<close> returns a
  pair (flat, generations) where there are \<open>d + 1\<close> generations, generation 0 is
  \<open>[r]\<close>, every generation \<open>g\<close> from 1 to \<open>d\<close> is the concatenation, in order, of
  \<^verbatim>\<open>uptree(x)\<close> over the elements \<open>x\<close> of generation \<open>g - 1\<close>, and flat is sorted
  ascending and has exactly the elements of all generations, each as often as
  it occurs in them.  With depth 0 the result is \<open>([r], [[r]])\<close>.
\<close>

theorem tree_spec:
  assumes "0 \<le> d"
  shows "\<exists>flat gens. tree \<lparr>root = r, steps = d\<rparr> = (flat, gens)
     \<and> length gens = nat d + 1
     \<and> gens ! 0 = [r]
     \<and> (\<forall>g. 1 \<le> g \<and> g \<le> nat d \<longrightarrow> gens ! g = concat (map uptree (gens ! (g - 1))))
     \<and> sorted flat \<and> mset flat = mset (concat gens)
     \<and> tree \<lparr>root = r, steps = 0\<rparr> = ([r], [[r]])"
proof -
  have "tree_inv r 0 ([r], [[r]])" by (simp add: tree_inv_def)
  from fold_tree_round_inv [OF this, of "[1 .. d]"]
  have inv: "tree_inv r (nat d) (fold tree_round [1 .. d] ([r], [[r]]))" by simp
  obtain flat gens where fg: "fold tree_round [1 .. d] ([r], [[r]]) = (flat, gens)"
    by (cases "fold tree_round [1 .. d] ([r], [[r]])")
  have t: "tree \<lparr>root = r, steps = d\<rparr> = (sort flat, gens)"
    by (simp add: tree_def fg)
  have z: "tree \<lparr>root = r, steps = 0\<rparr> = ([r], [[r]])"
    by (simp add: tree_def)
  from inv show ?thesis unfolding fg tree_inv_def t using z by simp
qed

theorem tree_spec_witness:
  "tree \<lparr>root = 1, steps = 3\<rparr> = ([1, 1, 2, 4, 8], [[1], [2], [4], [8, 1]])
   \<and> tree \<lparr>root = 5, steps = 1\<rparr> = ([5, 10], [[5], [10]])
   \<and> (\<exists>flat gens. tree \<lparr>root = 1, steps = 3\<rparr> = (flat, gens) \<and> length gens = 4
        \<and> gens ! 3 = concat (map uptree (gens ! 2)))"
proof -
  have a: "tree \<lparr>root = 1, steps = 3\<rparr> = ([1, 1, 2, 4, 8], [[1], [2], [4], [8, 1]])"
    by (simp add: tree_def tree_round_def nextbranch_of_def uptree_def upto.simps)
  have b: "tree \<lparr>root = 5, steps = 1\<rparr> = ([5, 10], [[5], [10]])"
    by (simp add: tree_def tree_round_def nextbranch_of_def uptree_def upto.simps)
  from tree_spec [of 3 1] a b show ?thesis by (simp add: uptree_def)
qed

subsection \<open>The counts of \<^verbatim>\<open>residue\<close> and \<^verbatim>\<open>completeness\<close>\<close>

lemma redcolgen_loop_reached:
  "1 \<le> n \<Longrightarrow> (redcolgen_step ^^ k) n = 1 \<Longrightarrow> \<exists>ys. redcolgen_loop n = Some ys"
proof (induction k arbitrary: n)
  case 0
  then show ?case by (simp add: redcolgen_loop.simps)
next
  case (Suc k)
  show ?case
  proof (cases "n = 1")
    case True
    then show ?thesis by (simp add: redcolgen_loop.simps)
  next
    case False
    from Suc.prems have "(redcolgen_step ^^ k) (redcolgen_step n) = 1"
      by (simp add: funpow_swap1)
    with Suc.IH [OF redcolgen_step_pos [OF Suc.prems(1)]]
    obtain ys where "redcolgen_loop (redcolgen_step n) = Some ys" by blast
    then show ?thesis by (subst redcolgen_loop.simps) simp
  qed
qed

lemma eo_loop_counts:
  assumes "redcolgen_loop n = Some ys"
  shows "1 \<le> n \<longrightarrow> (\<forall>e o'. eo_loop n e o' =
     Some (e + int (length ys), o' + int (length (filter (\<lambda>x. x mod 2 \<noteq> 0) (butlast (n # ys))))))"
proof (rule redcolgen_loop.raw_induct [where P = "\<lambda>n ys. 1 \<le> n \<longrightarrow> (\<forall>e o'. eo_loop n e o' =
     Some (e + int (length ys), o' + int (length (filter (\<lambda>x. x mod 2 \<noteq> 0) (butlast (n # ys))))))",
     OF _ assms])
  fix loop :: "int \<Rightarrow> int list option" and n ys
  assume IH: "\<And>n ys. loop n = Some ys \<Longrightarrow> 1 \<le> n \<longrightarrow> (\<forall>e o'. eo_loop n e o' =
     Some (e + int (length ys), o' + int (length (filter (\<lambda>x. x mod 2 \<noteq> 0) (butlast (n # ys))))))"
    and eq: "(if 1 < n then Option.bind (loop (redcolgen_step n)) (\<lambda>ys. Some (redcolgen_step n # ys))
             else Some []) = Some ys"
  show "1 \<le> n \<longrightarrow> (\<forall>e o'. eo_loop n e o' =
     Some (e + int (length ys), o' + int (length (filter (\<lambda>x. x mod 2 \<noteq> 0) (butlast (n # ys))))))"
  proof (cases "1 < n")
    case False
    with eq have "ys = []" by simp
    with False show ?thesis by (auto simp: eo_loop.simps)
  next
    case True
    with eq obtain zs where zs: "loop (redcolgen_step n) = Some zs" and ys: "ys = redcolgen_step n # zs"
      by (auto simp: bind_eq_Some_conv)
    from True have "1 \<le> redcolgen_step n" by (simp add: redcolgen_step_pos)
    with IH [OF zs] have ih: "\<And>e o'. eo_loop (redcolgen_step n) e o' =
       Some (e + int (length zs),
             o' + int (length (filter (\<lambda>x. x mod 2 \<noteq> 0) (butlast (redcolgen_step n # zs)))))"
      by blast
    show ?thesis
    proof (intro impI allI)
      fix e o'
      show "eo_loop n e o' =
        Some (e + int (length ys), o' + int (length (filter (\<lambda>x. x mod 2 \<noteq> 0) (butlast (n # ys)))))"
      proof (cases "n mod 2 = 0")
        case even: True
        then have "eo_loop n e o' = eo_loop (redcolgen_step n) (e + 1) o'"
          using True by (subst eo_loop.simps) (simp add: redcolgen_step_def)
        with even ys show ?thesis by (simp add: ih)
      next
        case odd: False
        then have "eo_loop n e o' = eo_loop (redcolgen_step n) (e + 1) (o' + 1)"
          using True by (subst eo_loop.simps) (simp add: redcolgen_step_def mult.commute)
        with odd ys show ?thesis by (simp add: ih)
      qed
    qed
  qed
qed

text \<open>
  Claim C6.  Let \<open>n \<ge> 1\<close> be a number whose reduced walk reaches 1, and let \<open>xs\<close> be
  the reduced trajectory \<^verbatim>\<open>T(n)\<close>.  The loop of \<^verbatim>\<open>residue\<close> runs once for every
  element of \<open>xs\<close> but the last, so \<open>E\<close> is the length of \<open>xs\<close> minus one and \<open>O\<close> is
  the number of odd elements of \<open>xs\<close> without its last; \<^verbatim>\<open>residue(n)\<close> returns the
  quotient of \<open>2 ^ E\<close> by \<open>3 ^ O * n\<close> and raises nothing.  \<^verbatim>\<open>residue(1)\<close> is 1.
\<close>

theorem residue_spec:
  "(1 \<le> n \<and> (redcolgen_step ^^ k) n = 1 \<longrightarrow>
     (\<exists>xs. T n = Some xs \<and>
        residue n = Some (Inr (2 ^ (length xs - 1)
           / (3 ^ length (filter (\<lambda>x. x mod 2 \<noteq> 0) (butlast xs)) * of_int n)))))
   \<and> residue 1 = Some (Inr 1)"
proof (intro conjI impI)
  show "residue 1 = Some (Inr 1)" by (simp add: residue_def eo_loop.simps truediv_def)
  assume a: "1 \<le> n \<and> (redcolgen_step ^^ k) n = 1"
  then obtain ys where ys: "redcolgen_loop n = Some ys" using redcolgen_loop_reached by blast
  from eo_loop_counts [OF ys] a have
    "eo_loop n 0 0 = Some (int (length ys), int (length (filter (\<lambda>x. x mod 2 \<noteq> 0) (butlast (n # ys)))))"
    by simp
  with a have "residue n = Some (Inr (2 ^ (length (n # ys) - 1)
           / (3 ^ length (filter (\<lambda>x. x mod 2 \<noteq> 0) (butlast (n # ys))) * of_int n)))"
    by (simp add: residue_def truediv_def)
  moreover have "T n = Some (n # ys)" using ys by (simp add: T_def redcolgen_def)
  ultimately show "\<exists>xs. T n = Some xs \<and>
        residue n = Some (Inr (2 ^ (length xs - 1)
           / (3 ^ length (filter (\<lambda>x. x mod 2 \<noteq> 0) (butlast xs)) * of_int n)))" by blast
qed

theorem residue_spec_witness:
  "T 10 = Some [10, 5, 8, 4, 2, 1] \<and> residue 10 = Some (Inr (2 ^ 5 / (3 ^ 1 * 10)))
   \<and> residue 1 = Some (Inr 1)"
proof -
  have a: "(redcolgen_step ^^ 5) 10 = 1" by (simp add: eval_nat_numeral redcolgen_step_def)
  have t: "T 10 = Some [10, 5, 8, 4, 2, 1]"
    by (simp add: T_def redcolgen_def redcolgen_loop.simps redcolgen_step_def)
  from residue_spec [of 10 5] a t show ?thesis by simp
qed

text \<open>
  Claim C5.  For \<open>n > 1\<close> whose reduced walk reaches 1, with \<open>E\<close> and \<open>O\<close> as for
  \<^verbatim>\<open>residue\<close>, \<open>E\<close> is positive and \<^verbatim>\<open>completeness(n)\<close> returns the quotient of \<open>O\<close> by
  \<open>E\<close>.  \<^verbatim>\<open>completeness(1)\<close> raises \<^verbatim>\<open>ZeroDivisionError\<close>: it returns no number.
\<close>

theorem completeness_spec:
  "(1 < n \<and> (redcolgen_step ^^ k) n = 1 \<longrightarrow>
     (\<exists>xs. T n = Some xs \<and> 0 < length xs - 1 \<and>
        completeness n = Some (Inr (of_nat (length (filter (\<lambda>x. x mod 2 \<noteq> 0) (butlast xs)))
           / of_nat (length xs - 1)))))
   \<and> completeness 1 = Some (Inl ZeroDivisionError)"
proof (intro conjI impI)
  show "completeness 1 = Some (Inl ZeroDivisionError)"
    by (simp add: completeness_def eo_loop.simps truediv_def)
  assume a: "1 < n \<and> (redcolgen_step ^^ k) n = 1"
  then have n: "1 \<le> n" by simp
  with a obtain ys where ys: "redcolgen_loop n = Some ys" using redcolgen_loop_reached by blast
  from a ys have ne: "ys \<noteq> []" by (subst (asm) redcolgen_loop.simps) (auto simp: bind_eq_Some_conv)
  from eo_loop_counts [OF ys] n have
    "eo_loop n 0 0 = Some (int (length ys), int (length (filter (\<lambda>x. x mod 2 \<noteq> 0) (butlast (n # ys)))))"
    by simp
  with ne have "completeness n = Some (Inr (of_nat (length (filter (\<lambda>x. x mod 2 \<noteq> 0) (butlast (n # ys))))
           / of_nat (length (n # ys) - 1)))"
    by (simp add: completeness_def truediv_def)
  moreover have "T n = Some (n # ys)" using ys by (simp add: T_def redcolgen_def)
  moreover have "0 < length (n # ys) - 1" using ne by simp
  ultimately show "\<exists>xs. T n = Some xs \<and> 0 < length xs - 1 \<and>
        completeness n = Some (Inr (of_nat (length (filter (\<lambda>x. x mod 2 \<noteq> 0) (butlast xs)))
           / of_nat (length xs - 1)))" by blast
qed

theorem completeness_spec_witness:
  "T 10 = Some [10, 5, 8, 4, 2, 1] \<and> completeness 10 = Some (Inr (1 / 5))
   \<and> completeness 1 = Some (Inl ZeroDivisionError)"
proof -
  have a: "(redcolgen_step ^^ 5) 10 = 1" by (simp add: eval_nat_numeral redcolgen_step_def)
  have t: "T 10 = Some [10, 5, 8, 4, 2, 1]"
    by (simp add: T_def redcolgen_def redcolgen_loop.simps redcolgen_step_def)
  from completeness_spec [of 10 5] a t show ?thesis by simp
qed

subsection \<open>The stopping time \<^verbatim>\<open>st\<close>\<close>

lemma st_loop_returns:
  assumes "1 \<le> ns" "ns \<le> m" "m \<noteq> 1" "0 < j"
    and "\<forall>i. 0 < i \<and> i < j \<longrightarrow> ns \<le> (redcolgen_step ^^ i) m \<and> (redcolgen_step ^^ i) m \<noteq> 1"
    and "(redcolgen_step ^^ j) m < ns \<or> (redcolgen_step ^^ j) m = 1"
  shows "st_loop ns m k = Some (k + st_cost j m)"
  using assms
proof (induction j arbitrary: m k)
  case 0
  then show ?case by simp
next
  case (Suc j)
  note ns = \<open>1 \<le> ns\<close> and m = \<open>ns \<le> m\<close> \<open>m \<noteq> 1\<close>
  have odd_up: "m < redcolgen_step m" if "m mod 2 \<noteq> 0"
    using that ns m unfolding redcolgen_step_def by (simp; presburger)
  show ?case
  proof (cases "j = 0")
    case True
    with Suc.prems(6) have fin: "redcolgen_step m < ns \<or> redcolgen_step m = 1" by simp
    show ?thesis
    proof (cases "m mod 2 = 0")
      case even: True
      then have r: "redcolgen_step m = m div 2" by (simp add: redcolgen_step_def)
      show ?thesis
      proof (cases "m div 2 < ns")
        case True
        with even m True \<open>j = 0\<close> show ?thesis by (subst st_loop.simps) simp
      next
        case False
        with fin r have "m div 2 = 1" by simp
        with even m False \<open>j = 0\<close> show ?thesis
          by (subst st_loop.simps, simp, subst st_loop.simps, simp)
      qed
    next
      case odd: False
      from odd_up [OF odd] ns m fin show ?thesis by simp
    qed
  next
    case False
    then have j: "0 < j" by simp
    from Suc.prems(5) j have one: "ns \<le> redcolgen_step m" "redcolgen_step m \<noteq> 1"
      by (auto dest: spec [of _ 1])
    have shift: "\<forall>i. 0 < i \<and> i < j \<longrightarrow> ns \<le> (redcolgen_step ^^ i) (redcolgen_step m)
        \<and> (redcolgen_step ^^ i) (redcolgen_step m) \<noteq> 1"
    proof (intro allI impI)
      fix i assume "0 < i \<and> i < j"
      then have "0 < Suc i \<and> Suc i < Suc j" by simp
      with Suc.prems(5) have "ns \<le> (redcolgen_step ^^ Suc i) m \<and> (redcolgen_step ^^ Suc i) m \<noteq> 1"
        by blast
      then show "ns \<le> (redcolgen_step ^^ i) (redcolgen_step m)
        \<and> (redcolgen_step ^^ i) (redcolgen_step m) \<noteq> 1" by (simp add: funpow_swap1)
    qed
    from Suc.prems(6) have fin: "(redcolgen_step ^^ j) (redcolgen_step m) < ns
        \<or> (redcolgen_step ^^ j) (redcolgen_step m) = 1" by (simp add: funpow_swap1)
    have ih: "st_loop ns (redcolgen_step m) k' = Some (k' + st_cost j (redcolgen_step m))" for k'
      by (rule Suc.IH [OF ns one j shift fin])
    show ?thesis
    proof (cases "m mod 2 = 0")
      case even: True
      then have r: "redcolgen_step m = m div 2" by (simp add: redcolgen_step_def)
      from one r have "\<not> m div 2 < ns" by simp
      with even m have "st_loop ns m k = st_loop ns (redcolgen_step m) (k + 1)"
        by (subst st_loop.simps) (simp add: r)
      with even show ?thesis by (simp add: ih)
    next
      case odd: False
      then have r: "redcolgen_step m = (3 * m + 1) div 2"
        by (simp add: redcolgen_step_def mult.commute)
      with odd m have "st_loop ns m k = st_loop ns (redcolgen_step m) (k + 1 + 1)"
        by (subst st_loop.simps) simp
      with odd show ?thesis by (simp add: ih)
    qed
  qed
qed

text \<open>
  Claim C2.  \<^verbatim>\<open>st(n)\<close> is 1 for every even \<open>n\<close>, and \<^verbatim>\<open>st(1)\<close> is 0, the value 1 being
  reached before any step.  For odd \<open>n > 1\<close> the function walks the reduced step
  and counts 2 for every step taken from an odd value and 1 for every step
  taken from an even value: when the \<open>j\<close>-th step is the first one whose new
  value is below \<open>n\<close> or equal to 1, \<^verbatim>\<open>st(n)\<close> returns the count of the first \<open>j\<close>
  steps.
\<close>

theorem st_spec:
  "(n mod 2 = 0 \<longrightarrow> st n = Some 1) \<and> st 1 = Some 0 \<and>
   (1 < n \<and> n mod 2 \<noteq> 0 \<and> 0 < j
      \<and> (\<forall>i. 0 < i \<and> i < j \<longrightarrow>
            n \<le> (redcolgen_step ^^ i) n \<and> (redcolgen_step ^^ i) n \<noteq> 1)
      \<and> ((redcolgen_step ^^ j) n < n \<or> (redcolgen_step ^^ j) n = 1)
    \<longrightarrow> st n = Some (st_cost j n))"
proof (intro conjI impI)
  show "st n = Some 1" if "n mod 2 = 0" using that by (simp add: st_def)
  show "st 1 = Some 0" by (simp add: st_def st_loop.simps)
  assume a: "1 < n \<and> n mod 2 \<noteq> 0 \<and> 0 < j
      \<and> (\<forall>i. 0 < i \<and> i < j \<longrightarrow>
            n \<le> (redcolgen_step ^^ i) n \<and> (redcolgen_step ^^ i) n \<noteq> 1)
      \<and> ((redcolgen_step ^^ j) n < n \<or> (redcolgen_step ^^ j) n = 1)"
  then have "st_loop n n 0 = Some (0 + st_cost j n)"
    by (intro st_loop_returns) simp_all
  with a show "st n = Some (st_cost j n)" by (simp add: st_def)
qed

theorem st_spec_witness:
  "st 3 = Some 6 \<and> st 4 = Some 1 \<and> st 1 = Some 0"
proof -
  have a: "\<forall>i. 0 < i \<and> i < 4 \<longrightarrow> 3 \<le> (redcolgen_step ^^ i) 3 \<and> (redcolgen_step ^^ i) 3 \<noteq> 1"
  proof (intro allI impI)
    fix i :: nat
    assume "0 < i \<and> i < 4"
    then consider "i = 1" | "i = 2" | "i = 3" by arith
    then show "3 \<le> (redcolgen_step ^^ i) 3 \<and> (redcolgen_step ^^ i) 3 \<noteq> 1"
      by cases (simp_all add: eval_nat_numeral redcolgen_step_def)
  qed
  have b: "(redcolgen_step ^^ 4) 3 < 3" by (simp add: eval_nat_numeral redcolgen_step_def)
  have c: "st_cost 4 3 = 6" by (simp add: eval_nat_numeral redcolgen_step_def)
  from st_spec [of 3 4] st_spec [of 4 0] a b c show ?thesis by simp
qed

subsection \<open>The list of \<^verbatim>\<open>CtoPo2\<close>\<close>

lemma CtoPo2_loop_step:
  assumes "1 \<le> m" "\<not> (\<exists>j. m = 2 ^ j)"
  shows "CtoPo2_loop m acc = CtoPo2_loop (colgen_step m) (acc @ [colgen_step m])"
  by (subst CtoPo2_loop.simps) (simp add: isPo2_pos assms colgen_step_def mult.commute)

lemma CtoPo2_loop_stop:
  assumes "1 \<le> m" "\<exists>j. m = 2 ^ j"
  shows "CtoPo2_loop m acc = Some acc"
  by (subst CtoPo2_loop.simps) (simp add: isPo2_pos assms)

lemma CtoPo2_loop_spec:
  assumes "1 \<le> m" "(colgen_step ^^ k) m = 2 ^ e"
  shows "\<exists>ys. CtoPo2_loop m acc = Some (acc @ ys)
     \<and> (\<forall>i<length ys. ys ! i = (colgen_step ^^ Suc i) m)
     \<and> ((\<exists>j. m = 2 ^ j) \<longrightarrow> ys = [])
     \<and> (\<not> (\<exists>j. m = 2 ^ j) \<longrightarrow> ys \<noteq> [] \<and> (\<exists>j. last ys = 2 ^ j)
           \<and> (\<forall>x \<in> set (butlast ys). \<not> (\<exists>j. x = 2 ^ j)))"
  using assms
proof (induction k arbitrary: m acc)
  case 0
  then have "\<exists>j. m = 2 ^ j" by auto
  with CtoPo2_loop_stop [OF "0.prems"(1) this, of acc] show ?case by simp
next
  case (Suc k)
  show ?case
  proof (cases "\<exists>j. m = 2 ^ j")
    case True
    with CtoPo2_loop_stop [OF Suc.prems(1) this, of acc] show ?thesis by simp
  next
    case False
    let ?m = "colgen_step m"
    from Suc.prems have m': "1 \<le> ?m" "(colgen_step ^^ k) ?m = 2 ^ e"
      by (simp_all add: colgen_step_pos funpow_swap1)
    from Suc.IH [OF m', of "acc @ [?m]"] obtain ys where
      run: "CtoPo2_loop ?m (acc @ [?m]) = Some ((acc @ [?m]) @ ys)"
      and nth: "\<forall>i<length ys. ys ! i = (colgen_step ^^ Suc i) ?m"
      and stop: "(\<exists>j. ?m = 2 ^ j) \<longrightarrow> ys = []"
      and go: "\<not> (\<exists>j. ?m = 2 ^ j) \<longrightarrow> ys \<noteq> [] \<and> (\<exists>j. last ys = 2 ^ j)
           \<and> (\<forall>x \<in> set (butlast ys). \<not> (\<exists>j. x = 2 ^ j))"
      by blast
    have a: "CtoPo2_loop m acc = Some (acc @ (?m # ys))"
      using CtoPo2_loop_step [OF Suc.prems(1) False, of acc] run by simp
    have b: "\<forall>i<length (?m # ys). (?m # ys) ! i = (colgen_step ^^ Suc i) m"
    proof (intro allI impI)
      fix i assume i: "i < length (?m # ys)"
      show "(?m # ys) ! i = (colgen_step ^^ Suc i) m"
      proof (cases i)
        case 0 then show ?thesis by simp
      next
        case (Suc i')
        with i nth have "ys ! i' = (colgen_step ^^ Suc i') ?m" by simp
        with Suc show ?thesis by (simp add: funpow_swap1)
      qed
    qed
    have c: "(\<exists>j. last (?m # ys) = 2 ^ j) \<and> (\<forall>x \<in> set (butlast (?m # ys)). \<not> (\<exists>j. x = 2 ^ j))"
    proof (cases "\<exists>j. ?m = 2 ^ j")
      case True
      with stop have "ys = []" by blast
      with True show ?thesis by simp
    next
      case no: False
      with go have "ys \<noteq> []" "\<exists>j. last ys = 2 ^ j" "\<forall>x \<in> set (butlast ys). \<not> (\<exists>j. x = 2 ^ j)"
        by blast+
      with no show ?thesis by simp
    qed
    from a b c False have "CtoPo2_loop m acc = Some (acc @ (?m # ys))
     \<and> (\<forall>i<length (?m # ys). (?m # ys) ! i = (colgen_step ^^ Suc i) m)
     \<and> ((\<exists>j. m = 2 ^ j) \<longrightarrow> (?m # ys) = [])
     \<and> (\<not> (\<exists>j. m = 2 ^ j) \<longrightarrow> (?m # ys) \<noteq> [] \<and> (\<exists>j. last (?m # ys) = 2 ^ j)
           \<and> (\<forall>x \<in> set (butlast (?m # ys)). \<not> (\<exists>j. x = 2 ^ j)))"
      by blast
    then show ?thesis by blast
  qed
qed

text \<open>
  Claim C8, amended.  Let \<open>n \<ge> 1\<close> be a number whose trajectory under the standard
  step reaches a power of two.  Then \<^verbatim>\<open>CtoPo2(n)\<close> returns a list whose element
  number \<open>i\<close> (from 0) is the value after \<open>i + 1\<close> steps from \<open>n\<close>, so \<open>n\<close> itself is
  left out.  When \<open>n\<close> is a power of two the list is empty; otherwise it is not
  empty, its last element is a power of two and no earlier element is one.
\<close>

theorem CtoPo2_spec:
  assumes "1 \<le> n" and "(colgen_step ^^ k) n = 2 ^ e"
  shows "\<exists>xs. CtoPo2 n = Some xs
     \<and> (\<forall>i<length xs. xs ! i = (colgen_step ^^ Suc i) n)
     \<and> ((\<exists>j. n = 2 ^ j) \<longrightarrow> xs = [])
     \<and> (\<not> (\<exists>j. n = 2 ^ j) \<longrightarrow> xs \<noteq> [] \<and> (\<exists>j. last xs = 2 ^ j)
           \<and> (\<forall>x \<in> set (butlast xs). \<not> (\<exists>j. x = 2 ^ j)))"
  using CtoPo2_loop_spec [OF assms, of "[]"] by (simp add: CtoPo2_def)

theorem CtoPo2_spec_witness:
  "CtoPo2 3 = Some [10, 5, 16] \<and> (\<exists>j. (16::int) = 2 ^ j) \<and> CtoPo2 8 = Some []"
proof -
  have a: "(colgen_step ^^ 3) 3 = 2 ^ 4" by (simp add: eval_nat_numeral colgen_step_def)
  have b: "(colgen_step ^^ 0) 8 = 2 ^ 3" by simp
  have c: "\<exists>j. (8::int) = 2 ^ j" by (rule exI [of _ 3]) simp
  have d: "CtoPo2 3 = Some [10, 5, 16]"
    by (simp add: CtoPo2_def CtoPo2_loop.simps isPo2_def isPo2_loop.simps)
  from CtoPo2_spec [of 3 3 4, OF _ a] CtoPo2_spec [of 8 0 3, OF _ b] c d
  show ?thesis by auto
qed

text \<open>
  The claim as it was stated gives the list a last element for every \<open>n\<close>; when
  \<open>n\<close> is a power of two, here 8, the loop is not entered and the list is empty.
\<close>

theorem CtoPo2_counterexample:
  "CtoPo2 8 = Some []"
  by (simp add: CtoPo2_def CtoPo2_loop.simps isPo2_def isPo2_loop.simps)

end
